theory Spec2Isabelle
  imports Main "HOL-Library.Word" "HOL-Library.Sublist"
begin

unbundle bit_operations_syntax

section \<open>Errors, byte streams and the connection interface\<close>

text \<open>
  The two source files are \<^verbatim>\<open>tcp_mux.go\<close> (the router and the RFC 4571 framing codec) and
  \<^verbatim>\<open>tcp_packet_conn.go\<close> (the buffered writer and the packet connection aggregator).
  Go's \<^verbatim>\<open>error\<close> values are modelled by one datatype; \<^verbatim>\<open>nil\<close> is \<open>None\<close> of
  \<open>io_error option\<close>. \<open>ErrConnectionAddrAlreadyExist a\<close> is the wrapped error
  \<^verbatim>\<open>fmt.Errorf("%w: %s", errConnectionAddrAlreadyExist, a)\<close>; \<open>ErrNetClosing\<close> is what a
  closed \<^verbatim>\<open>net.Conn\<close> answers; \<open>ErrTransport k\<close> stands for any other fault of the
  transport.
\<close>

type_synonym byte = "8 word"

datatype io_error =
    EOF
  | ErrClosedPipe
  | ErrShortBuffer
  | ErrConnectionAddrAlreadyExist string
  | ErrNetClosing
  | ErrFull
  | ErrTransport nat

text \<open>
  \<^verbatim>\<open>net.Conn\<close> is an interface, so a connection is modelled by what its methods can do:
  \<open>incoming\<close> is the script of the results of the coming \<^verbatim>\<open>Read\<close> calls (a chunk of
  bytes that one call can deliver, or a fault), \<open>outgoing\<close> collects the bytes that
  \<^verbatim>\<open>Write\<close> has accepted, \<open>wfault\<close> is the fault \<^verbatim>\<open>Write\<close> raises (with the count
  of bytes it accepts before), \<open>conn_closed\<close> is set by \<^verbatim>\<open>Close\<close>, and \<open>buffered\<close>
  says that the connection is wrapped in a \<^verbatim>\<open>bufferedConn\<close>.
\<close>

datatype read_event = Bytes "byte list" | Fault io_error

record conn =
  RemoteAddr :: string
  incoming :: "read_event list"
  outgoing :: "byte list"
  wfault :: "(nat \<times> io_error) option"
  conn_closed :: bool
  buffered :: bool

text \<open>
  One \<^verbatim>\<open>Read(p)\<close> with \<open>k = len(p)\<close>: at most \<open>k\<close> bytes of the chunk at the head of
  the script, the rest of the chunk staying for the next call; an exhausted script is the
  end of the stream (\<^verbatim>\<open>io.EOF\<close>).
\<close>

fun Read_ev :: "read_event list \<Rightarrow> nat \<Rightarrow> (byte list \<times> io_error option) \<times> read_event list" where
  "Read_ev [] k = (([], Some EOF), [])"
| "Read_ev (Fault e # evs) k = (([], Some e), evs)"
| "Read_ev (Bytes bs # evs) k =
     ((take k bs, None), (if length bs \<le> k then evs else Bytes (drop k bs) # evs))"

definition conn_Read :: "conn \<Rightarrow> nat \<Rightarrow> (byte list \<times> io_error option) \<times> conn" where
  "conn_Read c k =
     (if conn_closed c then (([], Some ErrNetClosing), c)
      else (case Read_ev (incoming c) k of (r, evs) \<Rightarrow> (r, c\<lparr>incoming := evs\<rparr>)))"

text \<open>
  \<^verbatim>\<open>Write(p)\<close>: the whole of \<open>p\<close> and no error, or the fault of the connection with the
  count of bytes accepted before it.
\<close>

definition conn_Write :: "conn \<Rightarrow> byte list \<Rightarrow> (nat \<times> io_error option) \<times> conn" where
  "conn_Write c p =
     (if conn_closed c then ((0, Some ErrNetClosing), c)
      else (case wfault c of
              None \<Rightarrow> ((length p, None), c\<lparr>outgoing := outgoing c @ p\<rparr>)
            | Some (k, e) \<Rightarrow> ((min k (length p), Some e), c\<lparr>outgoing := outgoing c @ take k p\<rparr>)))"

definition conn_Close :: "conn \<Rightarrow> conn" where
  "conn_Close c = c\<lparr>conn_closed := True\<rparr>"

section \<open>The framing codec (tcp\_mux.go)\<close>

text \<open>
  \<^verbatim>\<open>binary.BigEndian.Uint16\<close> and \<^verbatim>\<open>PutUint16\<close> on a two-byte header, and the
  conversion \<^verbatim>\<open>uint16(len(buf))\<close>, which truncates to 16 bits.
\<close>

definition Uint16 :: "byte list \<Rightarrow> 16 word" where
  "Uint16 b = (ucast (b ! 1) OR push_bit 8 (ucast (b ! 0)))"

definition PutUint16 :: "16 word \<Rightarrow> byte list" where
  "PutUint16 v = [ucast (drop_bit 8 v), ucast v]"

definition streamingPacketHeaderLen :: nat where
  "streamingPacketHeaderLen = 2"

text \<open>
  \<open>blit p off bs\<close> is the array \<open>p\<close> after a \<^verbatim>\<open>Read\<close> into \<^verbatim>\<open>p[off:limit]\<close> has stored
  the bytes \<open>bs\<close>.
\<close>

definition blit :: "byte list \<Rightarrow> nat \<Rightarrow> byte list \<Rightarrow> byte list" where
  "blit p off bs = take off p @ bs @ drop (off + length bs) p"

text \<open>
  The loop of \<^verbatim>\<open>readStreamingPacket\<close>, which the source writes twice (for the header and
  for the payload):
  \<^verbatim>\<open>for bytesRead < limit { if n, err = conn.Read(p[bytesRead:limit]); err != nil { return 0, err }; bytesRead += n }\<close>
  \<open>Inl e\<close> is the early return with the error.
\<close>

function readLoop :: "conn \<Rightarrow> byte list \<Rightarrow> nat \<Rightarrow> nat \<Rightarrow> (io_error + nat) \<times> byte list \<times> conn" where
  "readLoop c p bytesRead limit =
     (if bytesRead < limit then
        (case conn_Read c (limit - bytesRead) of
           ((bs, Some e), c') \<Rightarrow> (Inl e, p, c')
         | ((bs, None), c') \<Rightarrow> readLoop c' (blit p bytesRead bs) (bytesRead + length bs) limit)
      else (Inr bytesRead, p, c))"
  by pat_completeness auto
termination
proof (relation "measure (\<lambda>(c, p, bytesRead, limit). (limit - bytesRead) + length (incoming c))", goal_cases)
  case 1
  show ?case by simp
next
  case (2 c p bytesRead limit x1 c' bs x2)
  then have open_c: "\<not> conn_closed c"
    and rd: "Read_ev (incoming c) (limit - bytesRead) = ((bs, None), incoming c')"
    by (auto simp: conn_Read_def split: if_splits prod.splits)
  define evs' where "evs' = incoming c'"
  from rd 2(1) have "(limit - (bytesRead + length bs)) + length evs'
      < (limit - bytesRead) + length (incoming c)"
    unfolding evs'_def [symmetric]
    by (cases "(incoming c, limit - bytesRead)" rule: Read_ev.cases)
       (auto split: if_splits)
  then show ?case by (simp add: evs'_def)
qed

text \<open>
  \<^verbatim>\<open>readStreamingPacket(conn, buf)\<close>: \<open>buf\<close> is the backing array of the caller's slice,
  so \<open>length buf\<close> is \<^verbatim>\<open>cap(buf)\<close>. The result is the pair \<^verbatim>\<open>(int, error)\<close>, the array
  and the connection afterwards.
\<close>

definition readStreamingPacket :: "conn \<Rightarrow> byte list \<Rightarrow> (nat \<times> io_error option) \<times> byte list \<times> conn" where
  "readStreamingPacket c buf =
     (case readLoop c [0, 0] 0 streamingPacketHeaderLen of
        (Inl e, header, c') \<Rightarrow> ((0, Some e), buf, c')
      | (Inr n, header, c') \<Rightarrow>
          (let len = unat (Uint16 header) in
           if len > length buf then ((len, Some ErrShortBuffer), buf, c')
           else (case readLoop c' buf 0 len of
                   (Inl e, buf', c'') \<Rightarrow> ((0, Some e), buf', c'')
                 | (Inr bytesRead, buf', c'') \<Rightarrow> ((bytesRead, None), buf', c''))))"

text \<open>
  \<^verbatim>\<open>writeStreamingPacket(conn, buf)\<close>: the header and the payload in one \<^verbatim>\<open>Write\<close>; the
  count returned is \<^verbatim>\<open>n - streamingPacketHeaderLen\<close>, a Go \<^verbatim>\<open>int\<close>.
\<close>

definition frame :: "byte list \<Rightarrow> byte list" where
  "frame buf = PutUint16 (word_of_nat (length buf)) @ buf"

definition writeStreamingPacket :: "conn \<Rightarrow> byte list \<Rightarrow> (int \<times> io_error option) \<times> conn" where
  "writeStreamingPacket c buf =
     (case conn_Write c (frame buf) of
        ((n, Some e), c') \<Rightarrow> ((0, Some e), c')
      | ((n, None), c') \<Rightarrow> ((int n - int streamingPacketHeaderLen, None), c'))"


text \<open>
  Three functions describe a script of reads without running the codec: the bytes it
  delivers before its first fault, the fault met while \<open>k\<close> more bytes are awaited
  (\<open>None\<close> when the bytes come first), and the script left once \<open>k\<close> bytes have been
  taken from it. \<open>declared\<close> is the length that the first two bytes announce.
\<close>

fun available :: "read_event list \<Rightarrow> byte list" where
  "available [] = []"
| "available (Fault e # evs) = []"
| "available (Bytes bs # evs) = bs @ available evs"

fun raised :: "read_event list \<Rightarrow> nat \<Rightarrow> io_error option" where
  "raised evs 0 = None"
| "raised [] (Suc k) = Some EOF"
| "raised (Fault e # evs) (Suc k) = Some e"
| "raised (Bytes bs # evs) (Suc k) =
     (if Suc k \<le> length bs then None else raised evs (Suc k - length bs))"

fun skip :: "read_event list \<Rightarrow> nat \<Rightarrow> read_event list" where
  "skip evs 0 = evs"
| "skip [] (Suc k) = []"
| "skip (Fault e # evs) (Suc k) = evs"
| "skip (Bytes bs # evs) (Suc k) =
     (if Suc k < length bs then Bytes (drop (Suc k) bs) # evs else skip evs (Suc k - length bs))"

definition declared :: "read_event list \<Rightarrow> nat" where
  "declared evs = unat (Uint16 (take 2 (available evs)))"

text \<open>An open connection from the peer \<open>a\<close> whose reads follow the script \<open>evs\<close>.\<close>

definition peer_conn :: "string \<Rightarrow> read_event list \<Rightarrow> conn" where
  "peer_conn a evs = \<lparr>RemoteAddr = a, incoming = evs, outgoing = [], wfault = None,
     conn_closed = False, buffered = False\<rparr>"

(*DEFS-END*)

section \<open>Properties of the framing codec\<close>

lemma raised_None_iff: "raised evs k = None \<longleftrightarrow> k \<le> length (available evs)"
  by (induction evs k rule: raised.induct) auto

lemma available_skip: "k \<le> length (available evs) \<Longrightarrow> available (skip evs k) = drop k (available evs)"
  by (induction evs k rule: skip.induct) auto

lemma length_blit: "off + length bs \<le> length p \<Longrightarrow> length (blit p off bs) = length p"
  by (simp add: blit_def)

lemma blit_blit:
  assumes "off + length bs1 + length bs2 \<le> length p"
  shows "blit (blit p off bs1) (off + length bs1) bs2 = blit p off (bs1 @ bs2)"
proof -
  have l: "length (take off p) = off" using assms by simp
  have "take (off + length bs1) (take off p @ bs1 @ drop (off + length bs1) p) = take off p @ bs1"
    using l by simp
  moreover have "drop (off + length bs1 + length bs2) (take off p @ bs1 @ drop (off + length bs1) p)
      = drop (off + length bs1 + length bs2) p"
    using l assms by (simp add: add.commute)
  ultimately show ?thesis
    by (simp add: blit_def add.assoc)
qed

lemma blit_Nil: "off \<le> length p \<Longrightarrow> blit p off [] = p"
  by (simp add: blit_def)

declare readLoop.simps [simp del]

lemma readLoop_ok:
  "\<not> conn_closed c \<Longrightarrow> bytesRead \<le> limit \<Longrightarrow> limit \<le> length p \<Longrightarrow>
   limit - bytesRead \<le> length (available (incoming c)) \<Longrightarrow>
   readLoop c p bytesRead limit =
     (Inr limit, blit p bytesRead (take (limit - bytesRead) (available (incoming c))),
      c\<lparr>incoming := skip (incoming c) (limit - bytesRead)\<rparr>)"
proof (induction c p bytesRead limit rule: readLoop.induct)
  case (1 c p bytesRead limit)
  show ?case
  proof (cases "bytesRead < limit")
    case False
    with 1(3) have "bytesRead = limit" by simp
    then show ?thesis using 1(4) by (subst readLoop.simps) (simp add: blit_Nil)
  next
    case True
    then obtain k where k: "limit - bytesRead = Suc k" by (cases "limit - bytesRead") auto
    show ?thesis
    proof (cases "incoming c")
      case Nil
      with 1(5) k show ?thesis by simp
    next
      case (Cons ev evs)
      show ?thesis
      proof (cases ev)
        case (Fault e)
        with Cons 1(5) k show ?thesis by simp
      next
        case (Bytes bs)
        define got where "got = take (Suc k) bs"
        define c' where "c' = c\<lparr>incoming := (if length bs \<le> Suc k then evs else Bytes (drop (Suc k) bs) # evs)\<rparr>"
        have rd: "conn_Read c (limit - bytesRead) = ((got, None), c')"
          using 1(2) Cons Bytes k by (simp add: conn_Read_def got_def c'_def)
        have lgot: "length got \<le> Suc k" by (simp add: got_def)
        have fit: "bytesRead + length got \<le> limit" using lgot k by linarith
        have avail: "available (incoming c) = got @ available (incoming c')"
          using Cons Bytes by (auto simp: got_def c'_def)
        have rest: "limit - (bytesRead + length got) \<le> length (available (incoming c'))"
          using 1(5) avail by simp
        have IH: "readLoop c' (blit p bytesRead got) (bytesRead + length got) limit =
          (Inr limit, blit (blit p bytesRead got) (bytesRead + length got)
             (take (limit - (bytesRead + length got)) (available (incoming c'))),
           c'\<lparr>incoming := skip (incoming c') (limit - (bytesRead + length got))\<rparr>)"
        proof (rule 1(1)[OF True rd[symmetric] refl refl])
          show "\<not> conn_closed c'" using 1(2) by (simp add: c'_def)
          show "bytesRead + length got \<le> limit" by (rule fit)
          show "limit \<le> length (blit p bytesRead got)"
            using fit 1(4) by (simp add: length_blit)
          show "limit - (bytesRead + length got) \<le> length (available (incoming c'))" by (rule rest)
        qed
        have data: "take (limit - bytesRead) (available (incoming c)) =
            got @ take (limit - (bytesRead + length got)) (available (incoming c'))"
        proof -
          have "limit - (bytesRead + length got) = Suc k - length got" using k by linarith
          then show ?thesis using avail lgot k by simp
        qed
        have eq: "limit - (bytesRead + n) = Suc k - n" for n using k by linarith
        have sk: "skip (incoming c) (limit - bytesRead) = skip (incoming c') (limit - (bytesRead + length got))"
          unfolding eq using Cons Bytes k by (auto simp: c'_def got_def min_def)
        have bl: "blit (blit p bytesRead got) (bytesRead + length got)
             (take (limit - (bytesRead + length got)) (available (incoming c')))
            = blit p bytesRead (got @ take (limit - (bytesRead + length got)) (available (incoming c')))"
          by (rule blit_blit) (use fit 1(4) rest in simp)
        have "readLoop c p bytesRead limit = readLoop c' (blit p bytesRead got) (bytesRead + length got) limit"
          by (subst readLoop.simps) (simp add: True rd)
        moreover have "c'\<lparr>incoming := X\<rparr> = c\<lparr>incoming := X\<rparr>" for X
          by (simp add: c'_def)
        ultimately show ?thesis
          by (simp only: IH bl data[symmetric] sk[symmetric])
      qed
    qed
  qed
qed

lemma readLoop_err:
  "\<not> conn_closed c \<Longrightarrow> raised (incoming c) (limit - bytesRead) = Some e \<Longrightarrow>
   fst (readLoop c p bytesRead limit) = Inl e"
proof (induction c p bytesRead limit rule: readLoop.induct)
  case (1 c p bytesRead limit)
  have lt: "bytesRead < limit" using 1(3) by (cases "limit - bytesRead") auto
  then obtain k where k: "limit - bytesRead = Suc k" by (cases "limit - bytesRead") auto
  show ?case
  proof (cases "incoming c")
    case Nil
    then show ?thesis using 1(2,3) k lt
      by (subst readLoop.simps) (simp add: conn_Read_def)
  next
    case (Cons ev evs)
    show ?thesis
    proof (cases ev)
      case (Fault e')
      then show ?thesis using 1(2,3) k lt Cons
        by (subst readLoop.simps) (simp add: conn_Read_def)
    next
      case (Bytes bs)
      define got where "got = take (Suc k) bs"
      define c' where "c' = c\<lparr>incoming := (if length bs \<le> Suc k then evs else Bytes (drop (Suc k) bs) # evs)\<rparr>"
      have rd: "conn_Read c (limit - bytesRead) = ((got, None), c')"
        using 1(2) Cons Bytes k by (simp add: conn_Read_def got_def c'_def)
      have short: "length bs < Suc k" and r: "raised evs (Suc k - length bs) = Some e"
        using 1(3) Cons Bytes k by (auto split: if_splits)
      have "fst (readLoop c' (blit p bytesRead got) (bytesRead + length got) limit) = Inl e"
      proof (rule 1(1)[OF lt rd[symmetric] refl refl])
        show "\<not> conn_closed c'" using 1(2) by (simp add: c'_def)
        have "limit - (bytesRead + length got) = Suc k - length bs"
          using short k by (simp add: got_def)
        then show "raised (incoming c') (limit - (bytesRead + length got)) = Some e"
          using r short by (simp add: c'_def)
      qed
      moreover have "readLoop c p bytesRead limit = readLoop c' (blit p bytesRead got) (bytesRead + length got) limit"
        by (subst readLoop.simps) (simp add: lt rd)
      ultimately show ?thesis by simp
    qed
  qed
qed


lemma Uint16_PutUint16: "Uint16 (PutUint16 v) = v"
  unfolding Uint16_def PutUint16_def
  by (simp, intro bit_word_eqI) (auto simp add: bit_simps)

lemma unat_header: "n \<le> 65535 \<Longrightarrow> unat (Uint16 (PutUint16 (word_of_nat n))) = n"
  by (simp add: Uint16_PutUint16 unat_of_nat)

lemma length_PutUint16: "length (PutUint16 v) = 2"
  by (simp add: PutUint16_def)

lemma header_read:
  assumes "\<not> conn_closed c" "raised (incoming c) 2 = None"
  shows "readLoop c [0, 0] 0 streamingPacketHeaderLen =
     (Inr 2, take 2 (available (incoming c)), c\<lparr>incoming := skip (incoming c) 2\<rparr>)"
proof -
  have a: "2 \<le> length (available (incoming c))" using assms(2) by (simp add: raised_None_iff)
  have "readLoop c [0, 0] 0 2 = (Inr 2, blit [0, 0] 0 (take (2 - 0) (available (incoming c))),
      c\<lparr>incoming := skip (incoming c) (2 - 0)\<rparr>)"
    by (rule readLoop_ok) (use assms(1) a in simp_all)
  moreover have "blit [0, 0] 0 (take 2 (available (incoming c))) = take 2 (available (incoming c))"
    using a by (simp add: blit_def)
  ultimately show ?thesis by (simp add: streamingPacketHeaderLen_def)
qed

lemma readStreamingPacket_header:
  assumes "\<not> conn_closed c" "raised (incoming c) 2 = None"
  shows "readStreamingPacket c buf =
     (let len = declared (incoming c); c' = c\<lparr>incoming := skip (incoming c) 2\<rparr> in
        if len > length buf then ((len, Some ErrShortBuffer), buf, c')
           else (case readLoop c' buf 0 len of
                   (Inl e, buf', c'') \<Rightarrow> ((0, Some e), buf', c'')
                 | (Inr bytesRead, buf', c'') \<Rightarrow> ((bytesRead, None), buf', c'')))"
  by (simp add: readStreamingPacket_def header_read[OF assms] declared_def Let_def)

lemma readStreamingPacket_header_err:
  assumes "\<not> conn_closed c" "raised (incoming c) 2 = Some e"
  shows "fst (readStreamingPacket c buf) = (0, Some e)"
proof -
  have "fst (readLoop c [0, 0] 0 streamingPacketHeaderLen) = Inl e"
    by (rule readLoop_err) (use assms in \<open>simp_all add: streamingPacketHeaderLen_def\<close>)
  then show ?thesis
    by (cases "readLoop c [0, 0] 0 streamingPacketHeaderLen") (simp add: readStreamingPacket_def)
qed

lemma readStreamingPacket_closed:
  assumes "conn_closed c"
  shows "fst (readStreamingPacket c buf) = (0, Some ErrNetClosing)"
  using assms
  by (simp add: readStreamingPacket_def readLoop.simps[of c] conn_Read_def streamingPacketHeaderLen_def)

text \<open>
  Claim C2. When the two header bytes announce a length greater than the capacity of the
  caller's buffer, \<open>readStreamingPacket\<close> returns that length with \<open>ErrShortBuffer\<close>;
  and a fault of the connection met while the header or the payload is read (a closed
  connection, a fault of the script, the end of the stream) is returned as it is, with
  the count \<open>0\<close>.
\<close>

theorem readStreamingPacket_errors:
  "(conn_closed c \<longrightarrow> fst (readStreamingPacket c buf) = (0, Some ErrNetClosing)) \<and>
   (\<not> conn_closed c \<longrightarrow>
     (\<forall>e. raised (incoming c) 2 = Some e \<longrightarrow> fst (readStreamingPacket c buf) = (0, Some e)) \<and>
     (raised (incoming c) 2 = None \<longrightarrow>
        (length buf < declared (incoming c) \<longrightarrow>
           fst (readStreamingPacket c buf) = (declared (incoming c), Some ErrShortBuffer)) \<and>
        (declared (incoming c) \<le> length buf \<longrightarrow>
           (\<forall>e. raised (skip (incoming c) 2) (declared (incoming c)) = Some e \<longrightarrow>
              fst (readStreamingPacket c buf) = (0, Some e)))))"
proof (intro conjI impI allI)
  assume "conn_closed c"
  then show "fst (readStreamingPacket c buf) = (0, Some ErrNetClosing)"
    by (rule readStreamingPacket_closed)
next
  fix e assume "\<not> conn_closed c" "raised (incoming c) 2 = Some e"
  then show "fst (readStreamingPacket c buf) = (0, Some e)"
    by (rule readStreamingPacket_header_err)
next
  assume "\<not> conn_closed c" "raised (incoming c) 2 = None" "length buf < declared (incoming c)"
  then show "fst (readStreamingPacket c buf) = (declared (incoming c), Some ErrShortBuffer)"
    by (simp add: readStreamingPacket_header Let_def)
next
  fix e
  assume a: "\<not> conn_closed c" "raised (incoming c) 2 = None" "declared (incoming c) \<le> length buf"
    "raised (skip (incoming c) 2) (declared (incoming c)) = Some e"
  let ?c' = "c\<lparr>incoming := skip (incoming c) 2\<rparr>"
  have "fst (readLoop ?c' buf 0 (declared (incoming c))) = Inl e"
    by (rule readLoop_err) (use a in simp_all)
  then show "fst (readStreamingPacket c buf) = (0, Some e)"
    using a(3) by (cases "readLoop ?c' buf 0 (declared (incoming c))")
      (simp add: readStreamingPacket_header[OF a(1,2)] Let_def)
qed

lemma readStreamingPacket_ok:
  assumes op: "\<not> conn_closed c" and av: "available (incoming c) = frame payload @ tl_bytes"
    and len: "length payload \<le> 65535" and cap: "length payload \<le> length buf"
  shows "readStreamingPacket c buf =
    ((length payload, None), payload @ drop (length payload) buf,
      c\<lparr>incoming := skip (skip (incoming c) 2) (length payload)\<rparr>)"
    and "available (skip (skip (incoming c) 2) (length payload)) = tl_bytes"
proof -
  have l2: "2 \<le> length (available (incoming c))" by (simp add: av frame_def length_PutUint16)
  then have r2: "raised (incoming c) 2 = None" by (simp add: raised_None_iff)
  have "take 2 (available (incoming c)) = PutUint16 (word_of_nat (length payload))"
    by (simp add: av frame_def length_PutUint16)
  then have d: "declared (incoming c) = length payload"
    using len by (simp add: declared_def unat_header)
  let ?c' = "c\<lparr>incoming := skip (incoming c) 2\<rparr>"
  have av': "available (incoming ?c') = payload @ tl_bytes"
    using l2 by (simp add: available_skip av frame_def length_PutUint16)
  have "readLoop ?c' buf 0 (length payload) =
     (Inr (length payload), blit buf 0 (take (length payload - 0) (available (incoming ?c'))),
      ?c'\<lparr>incoming := skip (incoming ?c') (length payload - 0)\<rparr>)"
    by (rule readLoop_ok) (use op cap av' in simp_all)
  then have "readLoop ?c' buf 0 (length payload) =
     (Inr (length payload), payload @ drop (length payload) buf,
      c\<lparr>incoming := skip (skip (incoming c) 2) (length payload)\<rparr>)"
    using av' by (simp add: blit_def)
  then show "readStreamingPacket c buf =
    ((length payload, None), payload @ drop (length payload) buf,
      c\<lparr>incoming := skip (skip (incoming c) 2) (length payload)\<rparr>)"
    using cap by (simp add: readStreamingPacket_header[OF op r2] d Let_def)
  show "available (skip (skip (incoming c) 2) (length payload)) = tl_bytes"
    using av' by (simp add: available_skip)
qed

lemma writeStreamingPacket_ok:
  assumes "\<not> conn_closed w" "wfault w = None"
  shows "writeStreamingPacket w payload =
     ((int (length payload), None), w\<lparr>outgoing := outgoing w @ frame payload\<rparr>)"
  using assms
  by (simp add: writeStreamingPacket_def conn_Write_def frame_def length_PutUint16
      streamingPacketHeaderLen_def)

text \<open>
  Claim C1. A payload of at most 65535 bytes that \<open>writeStreamingPacket\<close> has written is
  read back by \<open>readStreamingPacket\<close> into any buffer of sufficient capacity, however the
  transport cuts the bytes into reads: the count returned is the length of the payload,
  the buffer starts with the payload, and the stream is left at the byte after the frame.
\<close>

theorem readStreamingPacket_writeStreamingPacket:
  assumes "length payload \<le> 65535" and "length payload \<le> length buf"
    and "\<not> conn_closed w" and "wfault w = None" and "\<not> conn_closed r"
    and "available (incoming r) =
           drop (length (outgoing w)) (outgoing (snd (writeStreamingPacket w payload))) @ tl_bytes"
  shows "fst (writeStreamingPacket w payload) = (int (length payload), None) \<and>
         fst (readStreamingPacket r buf) = (length payload, None) \<and>
         take (length payload) (fst (snd (readStreamingPacket r buf))) = payload \<and>
         available (incoming (snd (snd (readStreamingPacket r buf)))) = tl_bytes"
proof -
  have w: "writeStreamingPacket w payload =
     ((int (length payload), None), w\<lparr>outgoing := outgoing w @ frame payload\<rparr>)"
    by (rule writeStreamingPacket_ok) fact+
  then have av: "available (incoming r) = frame payload @ tl_bytes"
    using assms(6) by simp
  show ?thesis
    using readStreamingPacket_ok[OF assms(5) av assms(1,2)] w by simp
qed


theorem readStreamingPacket_writeStreamingPacket_witness:
  "fst (writeStreamingPacket (peer_conn ''10.0.0.2:9'' []) [7, 8, 9]) = (3, None) \<and>
   fst (readStreamingPacket
          (peer_conn ''10.0.0.1:5000'' [Bytes [0], Bytes [3, 7], Bytes [8, 9, 0, 1, 5]])
          [0, 0, 0, 0]) = (3, None) \<and>
   take 3 (fst (snd (readStreamingPacket
          (peer_conn ''10.0.0.1:5000'' [Bytes [0], Bytes [3, 7], Bytes [8, 9, 0, 1, 5]])
          [0, 0, 0, 0]))) = [7, 8, 9] \<and>
   available (incoming (snd (snd (readStreamingPacket
          (peer_conn ''10.0.0.1:5000'' [Bytes [0], Bytes [3, 7], Bytes [8, 9, 0, 1, 5]])
          [0, 0, 0, 0])))) = [0, 1, 5]"
proof -
  let ?w = "peer_conn ''10.0.0.2:9'' []"
  let ?r = "peer_conn ''10.0.0.1:5000'' [Bytes [0], Bytes [3, 7], Bytes [8, 9, 0, 1, 5]]"
  have h: "length [7, 8, 9 :: byte] \<le> 65535" "length [7, 8, 9 :: byte] \<le> length [0, 0, 0, 0 :: byte]"
    "\<not> conn_closed ?w" "wfault ?w = None" "\<not> conn_closed ?r"
    "available (incoming ?r) =
       drop (length (outgoing ?w)) (outgoing (snd (writeStreamingPacket ?w [7, 8, 9]))) @ [0, 1, 5]"
    by (simp_all add: peer_conn_def writeStreamingPacket_def conn_Write_def frame_def PutUint16_def)
  have l: "length [7, 8, 9 :: byte] = 3" by simp
  show ?thesis
    using readStreamingPacket_writeStreamingPacket [OF h] unfolding l by simp
qed

theorem readStreamingPacket_errors_witness:
  "fst (readStreamingPacket (peer_conn ''10.0.0.1:5000'' [Bytes [0, 3, 0], Bytes [1, 7]]) [0, 0])
     = (3, Some ErrShortBuffer) \<and>
   fst (readStreamingPacket (peer_conn ''10.0.0.1:5000'' [Bytes [0], Fault (ErrTransport 1)]) [0, 0])
     = (0, Some (ErrTransport 1)) \<and>
   fst (readStreamingPacket (peer_conn ''10.0.0.1:5000'' [Bytes [0, 2, 4]]) [0, 0])
     = (0, Some EOF) \<and>
   fst (readStreamingPacket (conn_Close (peer_conn ''10.0.0.1:5000'' [Bytes [0, 0]])) [0, 0])
     = (0, Some ErrNetClosing)"
proof -
  let ?c1 = "peer_conn ''10.0.0.1:5000'' [Bytes [0, 3, 0], Bytes [1, 7]]"
  let ?c2 = "peer_conn ''10.0.0.1:5000'' [Bytes [0], Fault (ErrTransport 1)]"
  let ?c3 = "peer_conn ''10.0.0.1:5000'' [Bytes [0, 2, 4]]"
  let ?c4 = "conn_Close (peer_conn ''10.0.0.1:5000'' [Bytes [0, 0]])"
  have h1: "\<not> conn_closed ?c1" "raised (incoming ?c1) 2 = None" "declared (incoming ?c1) = 3"
    by code_simp+
  have h2: "\<not> conn_closed ?c2" "raised (incoming ?c2) 2 = Some (ErrTransport 1)"
    by code_simp+
  have h3: "\<not> conn_closed ?c3" "raised (incoming ?c3) 2 = None" "declared (incoming ?c3) = 2"
    "raised (skip (incoming ?c3) 2) 2 = Some EOF"
    by code_simp+
  have h4: "conn_closed ?c4"
    by code_simp
  have "fst (readStreamingPacket ?c1 [0, 0]) = (3, Some ErrShortBuffer)"
    using readStreamingPacket_errors [of ?c1 "[0, 0]"] h1 by simp
  moreover have "fst (readStreamingPacket ?c2 [0, 0]) = (0, Some (ErrTransport 1))"
    using readStreamingPacket_errors [of ?c2 "[0, 0]"] h2 by simp
  moreover have "fst (readStreamingPacket ?c3 [0, 0]) = (0, Some EOF)"
    using readStreamingPacket_errors [of ?c3 "[0, 0]"] h3 by simp
  moreover have "fst (readStreamingPacket ?c4 [0, 0]) = (0, Some ErrNetClosing)"
    using readStreamingPacket_errors [of ?c4 "[0, 0]"] h4 by simp
  ultimately show ?thesis by simp
qed

text \<open>
  Claim C3 says that after the \<open>ErrShortBuffer\<close> return the stream stands at a frame
  boundary. The code returns as soon as it has read the header, so the payload of the
  oversize frame is still unread: on the stream that carries the frame of the payload
  \<open>[0, 1, 7]\<close> and then the frame of \<open>[9]\<close>, a buffer of capacity 2 gets
  \<open>ErrShortBuffer\<close> with the length 3, and the next call takes the payload bytes
  \<open>0, 1\<close> for a header and returns the payload byte \<open>7\<close> as a packet of its own.
\<close>

theorem readStreamingPacket_oversize_counterexample:
  "available (incoming (peer_conn ''10.0.0.1:5000'' [Bytes [0, 3, 0, 1, 7, 0, 1, 9]]))
     = frame [0, 1, 7] @ frame [9] \<and>
   readStreamingPacket (peer_conn ''10.0.0.1:5000'' [Bytes [0, 3, 0, 1, 7, 0, 1, 9]]) [0, 0]
     = ((3, Some ErrShortBuffer), [0, 0], peer_conn ''10.0.0.1:5000'' [Bytes [0, 1, 7, 0, 1, 9]]) \<and>
   readStreamingPacket (peer_conn ''10.0.0.1:5000'' [Bytes [0, 1, 7, 0, 1, 9]]) [0, 0]
     = ((1, None), [7, 0], peer_conn ''10.0.0.1:5000'' [Bytes [0, 1, 9]]) \<and>
   available (incoming (peer_conn ''10.0.0.1:5000'' [Bytes [0, 1, 7, 0, 1, 9]])) \<noteq> frame [9]"
  by (simp add: readStreamingPacket_def readLoop.simps conn_Read_def peer_conn_def
      streamingPacketHeaderLen_def blit_def Uint16_def frame_def PutUint16_def)

text \<open>
  Claim C3 as amended. When the header announces more than the capacity of the buffer,
  \<open>readStreamingPacket\<close> returns the announced length with \<open>ErrShortBuffer\<close>, leaves the
  buffer as it was and has taken the two header bytes from the stream and nothing else:
  the bytes still to come are those of the stream without its first two, so the payload
  of the oversize frame is the next thing a read of that stream meets.
\<close>

theorem readStreamingPacket_oversize:
  assumes "\<not> conn_closed c" and "raised (incoming c) 2 = None"
    and "length buf < declared (incoming c)"
  shows "readStreamingPacket c buf =
           ((declared (incoming c), Some ErrShortBuffer), buf,
            c\<lparr>incoming := skip (incoming c) 2\<rparr>) \<and>
         available (incoming (snd (snd (readStreamingPacket c buf))))
           = drop 2 (available (incoming c))"
proof -
  have "2 \<le> length (available (incoming c))"
    using assms(2) by (simp add: raised_None_iff)
  then show ?thesis
    using assms by (simp add: readStreamingPacket_header Let_def available_skip)
qed

theorem readStreamingPacket_oversize_witness:
  "readStreamingPacket (peer_conn ''10.0.0.1:5000'' [Bytes [0, 3], Bytes [0, 1, 7, 0, 1, 9]]) [0, 0]
     = ((3, Some ErrShortBuffer), [0, 0], peer_conn ''10.0.0.1:5000'' [Bytes [0, 1, 7, 0, 1, 9]]) \<and>
   available (incoming (snd (snd (readStreamingPacket
       (peer_conn ''10.0.0.1:5000'' [Bytes [0, 3], Bytes [0, 1, 7, 0, 1, 9]]) [0, 0]))))
     = [0, 1, 7, 0, 1, 9]"
proof -
  let ?c = "peer_conn ''10.0.0.1:5000'' [Bytes [0, 3], Bytes [0, 1, 7, 0, 1, 9]]"
  have h: "\<not> conn_closed ?c" "raised (incoming ?c) 2 = None" "declared (incoming ?c) = 3"
    "length [0, 0 :: byte] < 3"
    "?c\<lparr>incoming := skip (incoming ?c) 2\<rparr> = peer_conn ''10.0.0.1:5000'' [Bytes [0, 1, 7, 0, 1, 9]]"
    "drop 2 (available (incoming ?c)) = [0, 1, 7, 0, 1, 9]"
    by code_simp+
  show ?thesis
    using readStreamingPacket_oversize [of ?c "[0, 0]"] h by (simp add: peer_conn_def)
qed

end
